theory Spec2Isabelle
  imports Main "HOL-Library.Word" "HOL-Library.Signed_Division"
begin

unbundle bit_operations_syntax

section \<open>The integer run codec of \<^verbatim>\<open>src/lib/json.h\<close>\<close>

text \<open>
  The four templates \<^verbatim>\<open>encodeVector\<close>, \<^verbatim>\<open>decodeVector\<close>, \<^verbatim>\<open>encodeVector4\<close> and
  \<^verbatim>\<open>decodeVector4\<close> are the only function bodies of the header. Their data:
  \<^item> a \<^verbatim>\<open>std::string\<close> is a list of bytes;
  \<^item> the iterator range \<^verbatim>\<open>[begin, end)\<close> of the encoders is the list of the values it
    yields, each already converted to \<^verbatim>\<open>long long int\<close> (an \<open>int\<close> between \<open>- 2 ^ 63\<close> and
    \<open>2 ^ 63 - 1\<close>; the loop only subtracts from values that are at least the field maximum,
    so nothing overflows after that conversion);
  \<^item> \<^verbatim>\<open>unsigned int\<close> is a 32-bit word; the \<^verbatim>\<open>int\<close> values of the decoders' field
    expressions are 32-bit words in two's complement as well, their shifts and sums
    wrapping as the compilers have it, and the conversion to \<^verbatim>\<open>unsigned int\<close> keeps the
    bits; the decoders' loop index, an \<^verbatim>\<open>int\<close> too, only counts upwards, and its overflow
    is a fault;
  \<^item> the container the decoders fill is the list of the \<^verbatim>\<open>unsigned int\<close> values handed to
    \<^verbatim>\<open>push_back\<close>.
\<close>

type_synonym byte = "8 word"

type_synonym uint32 = "32 word"

subsection \<open>Encoders\<close>

text \<open>
  \<^verbatim>\<open>while (tmp >= 0xFFFF) { result += (char)0xFF; result += (char)0xFF; tmp -= 0xFFFF; }\<close>
  The state of the loop is the string built so far and \<^verbatim>\<open>tmp\<close>.
\<close>

function encodeVector_while :: "byte list \<Rightarrow> int \<Rightarrow> byte list \<times> int" where
  "encodeVector_while result tmp =
     (if tmp \<ge> 0xFFFF
      then encodeVector_while (result @ [0xFF, 0xFF]) (tmp - 0xFFFF)
      else (result, tmp))"
  by pat_completeness auto

termination
  by (relation "measure (\<lambda>(result, tmp). nat tmp)") auto

declare encodeVector_while.simps [simp del]

text \<open>
  The body of the \<^verbatim>\<open>for\<close> loop: the run of maximum fields, then
  \<^verbatim>\<open>result += (char)(tmp / 256); result += (char)(tmp % 256);\<close>. C++ division truncates
  towards zero (\<open>sdiv\<close>, \<open>smod\<close>) and the cast to \<^verbatim>\<open>char\<close> keeps the low eight bits.
\<close>

definition encodeVector_step :: "byte list \<Rightarrow> int \<Rightarrow> byte list" where
  "encodeVector_step result v =
     (case encodeVector_while result v of
        (result1, tmp) \<Rightarrow> result1 @ [word_of_int (tmp sdiv 256), word_of_int (tmp smod 256)])"

fun encodeVector_for :: "byte list \<Rightarrow> int list \<Rightarrow> byte list" where
  "encodeVector_for result [] = result"
| "encodeVector_for result (v # rest) = encodeVector_for (encodeVector_step result v) rest"

definition encodeVector :: "int list \<Rightarrow> byte list" where
  "encodeVector S = encodeVector_for [] S"

text \<open>
  The 4-byte form. \<^verbatim>\<open>0xFFFFFFFF\<close> is an \<^verbatim>\<open>unsigned int\<close> literal, converted to
  \<^verbatim>\<open>long long\<close> (4294967295) for the comparison and the subtraction; the masks and shifts
  are taken on the \<^verbatim>\<open>long long\<close>.
\<close>

function encodeVector4_while :: "byte list \<Rightarrow> int \<Rightarrow> byte list \<times> int" where
  "encodeVector4_while result tmp =
     (if tmp \<ge> 0xFFFFFFFF
      then encodeVector4_while (result @ [0xFF, 0xFF, 0xFF, 0xFF]) (tmp - 0xFFFFFFFF)
      else (result, tmp))"
  by pat_completeness auto

termination
  by (relation "measure (\<lambda>(result, tmp). nat tmp)") auto

declare encodeVector4_while.simps [simp del]

definition encodeVector4_step :: "byte list \<Rightarrow> int \<Rightarrow> byte list" where
  "encodeVector4_step result v =
     (case encodeVector4_while result v of
        (result1, tmp) \<Rightarrow>
          result1 @ [word_of_int (drop_bit 24 (tmp AND 0xFF000000)),
                     word_of_int (drop_bit 16 (tmp AND 0x00FF0000)),
                     word_of_int (drop_bit 8 (tmp AND 0x0000FF00)),
                     word_of_int (tmp AND 0x000000FF)])"

fun encodeVector4_for :: "byte list \<Rightarrow> int list \<Rightarrow> byte list" where
  "encodeVector4_for result [] = result"
| "encodeVector4_for result (v # rest) = encodeVector4_for (encodeVector4_step result v) rest"

definition encodeVector4 :: "int list \<Rightarrow> byte list" where
  "encodeVector4 S = encodeVector4_for [] S"

subsection \<open>Decoders\<close>

text \<open>
  \<^verbatim>\<open>input[i]\<close> is a plain \<^verbatim>\<open>char\<close>, promoted to \<^verbatim>\<open>int\<close> before it is shifted. Whether
  plain \<^verbatim>\<open>char\<close> is signed is fixed by the platform (signed on x86 and x86-64 with GCC and
  Clang, unsigned on ARM Linux), so it is a parameter of the decoders: a signed
  \<^verbatim>\<open>char\<close> is sign-extended, an unsigned one zero-extended.
\<close>

definition char_to_int :: "bool \<Rightarrow> byte \<Rightarrow> uint32" where
  "char_to_int char_signed c = (if char_signed then scast c else ucast c)"

text \<open>
  What can go wrong in the decoders: a read outside the string, and the overflow of the
  loop index, an \<^verbatim>\<open>int\<close>. Both are undefined behaviour in C++; the model stops there
  with the fault.
\<close>

datatype fault = ReadOutsideString | IndexOverflow

definition INT_MAX :: nat where
  "INT_MAX = 2147483647"

text \<open>
  Reading \<^verbatim>\<open>input[i]\<close> with \<^verbatim>\<open>std::string::operator[]\<close>: below \<^verbatim>\<open>input.size()\<close> it is
  the byte of the string; at \<^verbatim>\<open>input.size()\<close> it is a defined read of the terminating null
  character, the value 0; beyond that the read is outside the string, \<open>None\<close>.
\<close>

definition byte_at :: "byte list \<Rightarrow> nat \<Rightarrow> byte option" where
  "byte_at input i =
     (if i < length input then Some (input ! i)
      else if i = length input then Some 0
      else None)"

text \<open>
  \<^verbatim>\<open>unsigned int curLen = (input[i] << 8) + input[i + 1];\<close> The sum is an \<^verbatim>\<open>int\<close>
  converted to \<^verbatim>\<open>unsigned int\<close>, which keeps its 32 bits.
\<close>

definition curLen2 :: "bool \<Rightarrow> byte \<Rightarrow> byte \<Rightarrow> uint32" where
  "curLen2 char_signed b0 b1 = push_bit 8 (char_to_int char_signed b0) + char_to_int char_signed b1"

text \<open>
  \<^verbatim>\<open>for (int i = 0; i < input.size(); i += 2) { ... }\<close> with the state \<^verbatim>\<open>i\<close>, \<^verbatim>\<open>tmp\<close> and
  \<^verbatim>\<open>result\<close>. The index \<^verbatim>\<open>i\<close> is an \<^verbatim>\<open>int\<close> that starts at 0 and only grows, so it is
  kept as a natural number, and the step \<^verbatim>\<open>i += 2\<close> at the end of an iteration is the
  fault \<open>IndexOverflow\<close> when \<open>i + 2\<close> exceeds \<open>INT_MAX\<close> (whatever the iteration did to
  \<^verbatim>\<open>tmp\<close> and \<^verbatim>\<open>result\<close>).
\<close>

function decodeVector_for ::
  "bool \<Rightarrow> byte list \<Rightarrow> nat \<Rightarrow> uint32 \<Rightarrow> uint32 list \<Rightarrow> fault + uint32 list" where
  "decodeVector_for char_signed input i tmp result =
     (if i < length input then
        (case byte_at input i of
           None \<Rightarrow> Inl ReadOutsideString
         | Some b0 \<Rightarrow>
            (case byte_at input (i + 1) of
               None \<Rightarrow> Inl ReadOutsideString
             | Some b1 \<Rightarrow>
                (let curLen = curLen2 char_signed b0 b1;
                     tmp1 = tmp + curLen
                 in if INT_MAX < i + 2 then Inl IndexOverflow
                    else if curLen \<noteq> 0xFFFF
                    then decodeVector_for char_signed input (i + 2) 0 (result @ [tmp1])
                    else decodeVector_for char_signed input (i + 2) tmp1 result)))
      else Inr result)"
  by pat_completeness auto

termination
  by (relation "measure (\<lambda>(char_signed, input, i, tmp, result). length input - i)") auto

declare decodeVector_for.simps [simp del]

text \<open>\<^verbatim>\<open>result.clear()\<close>\<close>

definition clear :: "uint32 list \<Rightarrow> uint32 list" where
  "clear result = []"

text \<open>
  \<^verbatim>\<open>decodeVector(input, result)\<close>: the third argument is the content of \<^verbatim>\<open>result\<close> at the
  call, the value is its content at the return (\<open>Inr\<close>), or the fault that stopped the
  loop (\<open>Inl\<close>).
\<close>

definition decodeVector :: "bool \<Rightarrow> byte list \<Rightarrow> uint32 list \<Rightarrow> fault + uint32 list" where
  "decodeVector char_signed input result = decodeVector_for char_signed input 0 0 (clear result)"

text \<open>
  \<^verbatim>\<open>unsigned int curLen = (input[i] << 24) + (input[i + 1] << 16) + (input[i + 2] << 8) + (input[i + 3]);\<close>
\<close>

definition curLen4 :: "bool \<Rightarrow> byte \<Rightarrow> byte \<Rightarrow> byte \<Rightarrow> byte \<Rightarrow> uint32" where
  "curLen4 char_signed b0 b1 b2 b3 =
     push_bit 24 (char_to_int char_signed b0) + push_bit 16 (char_to_int char_signed b1)
     + push_bit 8 (char_to_int char_signed b2) + char_to_int char_signed b3"

text \<open>
  \<^verbatim>\<open>for (int i = 0; i < input.size(); i += 4) { ... }\<close>, as above. The index is a multiple
  of 4, so \<open>i + 3\<close> does not exceed \<open>INT_MAX\<close> when \<open>i\<close> does not; only the step
  \<^verbatim>\<open>i += 4\<close> can overflow.
\<close>

function decodeVector4_for ::
  "bool \<Rightarrow> byte list \<Rightarrow> nat \<Rightarrow> uint32 \<Rightarrow> uint32 list \<Rightarrow> fault + uint32 list" where
  "decodeVector4_for char_signed input i tmp result =
     (if i < length input then
        (case byte_at input i of
           None \<Rightarrow> Inl ReadOutsideString
         | Some b0 \<Rightarrow>
            (case byte_at input (i + 1) of
               None \<Rightarrow> Inl ReadOutsideString
             | Some b1 \<Rightarrow>
                (case byte_at input (i + 2) of
                   None \<Rightarrow> Inl ReadOutsideString
                 | Some b2 \<Rightarrow>
                    (case byte_at input (i + 3) of
                       None \<Rightarrow> Inl ReadOutsideString
                     | Some b3 \<Rightarrow>
                        (let curLen = curLen4 char_signed b0 b1 b2 b3;
                             tmp1 = tmp + curLen
                         in if INT_MAX < i + 4 then Inl IndexOverflow
                            else if curLen \<noteq> 0xFFFFFFFF
                            then decodeVector4_for char_signed input (i + 4) 0 (result @ [tmp1])
                            else decodeVector4_for char_signed input (i + 4) tmp1 result)))))
      else Inr result)"
  by pat_completeness auto

termination
  by (relation "measure (\<lambda>(char_signed, input, i, tmp, result). length input - i)") auto

declare decodeVector4_for.simps [simp del]

definition decodeVector4 :: "bool \<Rightarrow> byte list \<Rightarrow> uint32 list \<Rightarrow> fault + uint32 list" where
  "decodeVector4 char_signed input result = decodeVector4_for char_signed input 0 0 (clear result)"

section \<open>The run codec as the specification describes it\<close>

text \<open>
  The specification's words, written down on their own so that the code can be compared with
  them. A field is a big-endian number of two (or four) bytes.
\<close>

definition be16_value :: "byte \<Rightarrow> byte \<Rightarrow> nat" where
  "be16_value b0 b1 = 256 * unat b0 + unat b1"

definition be16 :: "nat \<Rightarrow> byte list" where
  "be16 f = [of_nat (f div 256), of_nat (f mod 256)]"

definition be32_value :: "byte \<Rightarrow> byte \<Rightarrow> byte \<Rightarrow> byte \<Rightarrow> nat" where
  "be32_value b0 b1 b2 b3 = 16777216 * unat b0 + 65536 * unat b1 + 256 * unat b2 + unat b3"

definition be32 :: "nat \<Rightarrow> byte list" where
  "be32 f = [of_nat (f div 16777216), of_nat (f div 65536 mod 256), of_nat (f div 256 mod 256),
             of_nat (f mod 256)]"

text \<open>
  Encode: while \<open>v \<ge> MAX\<close>, emit one field holding \<open>MAX\<close> and subtract \<open>MAX\<close> from \<open>v\<close>;
  finally emit one field holding the remainder. The result is the list of the field values
  (the guard \<open>0 < fmax\<close> only makes the definition total).
\<close>

function spec_run :: "nat \<Rightarrow> nat \<Rightarrow> nat list" where
  "spec_run fmax v = (if 0 < fmax \<and> fmax \<le> v then fmax # spec_run fmax (v - fmax) else [v])"
  by pat_completeness auto

termination
  by (relation "measure (\<lambda>(fmax, v). v)") auto

declare spec_run.simps [simp del]

definition spec_encode2 :: "nat list \<Rightarrow> byte list" where
  "spec_encode2 S = concat (map (\<lambda>v. concat (map be16 (spec_run 0xFFFF v))) S)"

definition spec_encode4 :: "nat list \<Rightarrow> byte list" where
  "spec_encode4 S = concat (map (\<lambda>v. concat (map be32 (spec_run 0xFFFFFFFF v))) S)"

text \<open>
  Decode: read fixed-width fields; a field equal to \<open>MAX\<close> is added to the running sum;
  a field strictly less than \<open>MAX\<close> is added to the running sum, the total is emitted
  and the sum is reset to zero.
\<close>

fun fields2 :: "byte list \<Rightarrow> nat list" where
  "fields2 (b0 # b1 # rest) = be16_value b0 b1 # fields2 rest"
| "fields2 rest = []"

fun fields4 :: "byte list \<Rightarrow> nat list" where
  "fields4 (b0 # b1 # b2 # b3 # rest) = be32_value b0 b1 b2 b3 # fields4 rest"
| "fields4 rest = []"

fun spec_decode :: "nat \<Rightarrow> nat \<Rightarrow> nat list \<Rightarrow> nat list" where
  "spec_decode fmax acc [] = []"
| "spec_decode fmax acc (f # fs) =
     (if f < fmax then (acc + f) # spec_decode fmax 0 fs else spec_decode fmax (acc + f) fs)"

section \<open>Views of the loops used in the proofs\<close>

text \<open>
  The decoders' loops as recursion over the bytes that remain (\<open>drop i input\<close>), with the
  values they still append, for inputs short enough that the index does not overflow: a
  last field that lacks one byte is completed by the terminator 0, and the 4-byte loop
  leaves the string (\<open>None\<close>) when the last field lacks two or three bytes. And the bytes
  one value adds to the encoders' string.
\<close>

fun decode2_list :: "bool \<Rightarrow> uint32 \<Rightarrow> byte list \<Rightarrow> uint32 list" where
  "decode2_list s tmp (b0 # b1 # rest) =
     (if curLen2 s b0 b1 \<noteq> 0xFFFF
      then (tmp + curLen2 s b0 b1) # decode2_list s 0 rest
      else decode2_list s (tmp + curLen2 s b0 b1) rest)"
| "decode2_list s tmp [b0] = (if curLen2 s b0 0 \<noteq> 0xFFFF then [tmp + curLen2 s b0 0] else [])"
| "decode2_list s tmp [] = []"

fun decode4_list :: "bool \<Rightarrow> uint32 \<Rightarrow> byte list \<Rightarrow> uint32 list option" where
  "decode4_list s tmp (b0 # b1 # b2 # b3 # rest) =
     (if curLen4 s b0 b1 b2 b3 \<noteq> 0xFFFFFFFF
      then map_option ((#) (tmp + curLen4 s b0 b1 b2 b3)) (decode4_list s 0 rest)
      else decode4_list s (tmp + curLen4 s b0 b1 b2 b3) rest)"
| "decode4_list s tmp [b0, b1, b2] =
     Some (if curLen4 s b0 b1 b2 0 \<noteq> 0xFFFFFFFF then [tmp + curLen4 s b0 b1 b2 0] else [])"
| "decode4_list s tmp [] = Some []"
| "decode4_list s tmp rest = None"

definition chunk2 :: "int \<Rightarrow> byte list" where
  "chunk2 v = encodeVector_step [] v"

definition chunk4 :: "int \<Rightarrow> byte list" where
  "chunk4 v = encodeVector4_step [] v"

section \<open>The value tree and its packed form\<close>

text \<open>
  \<^verbatim>\<open>enum ValueType\<close> and the data members of \<^verbatim>\<open>class Value\<close>, as \<^verbatim>\<open>src/lib/json.h\<close>
  declares them: \<^verbatim>\<open>long long int intVal\<close> is a 64-bit word; the doubles \<^verbatim>\<open>dblVal\<close> and
  \<^verbatim>\<open>dblDivider\<close> are kept as their 64-bit patterns (no arithmetic on them is modelled);
  \<^verbatim>\<open>std::deque<Value*> arrVal\<close> is the list of the owned children, and
  \<^verbatim>\<open>std::map<std::string, Value*> objVal\<close> the list of its entries in key order.
\<close>

datatype ValueType = EMPTY | BOOL | INTEGER | DOUBLE | STRING | ARRAY | OBJECT

datatype Value = Value (myType: ValueType) (intVal: "64 word") (strVal: "byte list")
  (dblVal: "64 word") (dblDivider: "64 word") (arrVal: "Value list")
  (objVal: "(byte list \<times> Value) list")

text \<open>
  Modelled from the spec: the bodies of \<^verbatim>\<open>Value::toPacked\<close> and \<^verbatim>\<open>Value::packedSize\<close>, which
  the header only declares (\<^verbatim>\<open>std::string toPacked() const\<close>,
  \<^verbatim>\<open>unsigned int packedSize() const\<close>). The specification describes the packed form as a
  one-byte tag marker followed by a tag-specific payload: integers and doubles as fixed-width
  numeric encodings, strings as a length prefix plus the raw bytes, arrays and objects as the
  sequence of their encoded children (objects interleave each child's key as a
  length-prefixed string) terminated by an explicit end marker. It fixes neither the marker
  bytes nor the widths nor the end marker; they are the parameters \<open>layout\<close>. A boolean is
  taken from \<^verbatim>\<open>intVal\<close> (the class has no other member to hold it) and Null has no payload.
\<close>

record layout =
  marker :: "ValueType \<Rightarrow> byte"
  boolWidth :: nat
  intWidth :: nat
  doubleWidth :: nat
  lengthWidth :: nat
  endMarker :: "byte list"

text \<open>Modelled from the spec: a fixed-width number of \<open>w\<close> bytes, most significant first.\<close>

definition fixed_width :: "nat \<Rightarrow> nat \<Rightarrow> byte list" where
  "fixed_width w n = map (\<lambda>k. of_nat (n div 256 ^ k)) (rev [0..<w])"

text \<open>Modelled from the spec: \<^verbatim>\<open>Value::toPacked\<close>, whose body is not in the header.\<close>

fun toPacked :: "layout \<Rightarrow> Value \<Rightarrow> byte list" where
  "toPacked L (Value t i s d dd arr obj) =
     marker L t #
     (case t of
        EMPTY \<Rightarrow> []
      | BOOL \<Rightarrow> fixed_width (boolWidth L) (unat i)
      | INTEGER \<Rightarrow> fixed_width (intWidth L) (unat i)
      | DOUBLE \<Rightarrow> fixed_width (doubleWidth L) (unat d)
      | STRING \<Rightarrow> fixed_width (lengthWidth L) (length s) @ s
      | ARRAY \<Rightarrow> concat (map (toPacked L) arr) @ endMarker L
      | OBJECT \<Rightarrow>
          concat (map (\<lambda>(k, c). fixed_width (lengthWidth L) (length k) @ k @ toPacked L c) obj)
          @ endMarker L)"

text \<open>
  Modelled from the spec: \<^verbatim>\<open>Value::packedSize\<close>, whose body is not in the header. It
  "computes the exact encoded byte length without materializing the bytes": the sizes of
  the parts are added up, in the \<^verbatim>\<open>unsigned int\<close> the header declares as the result, which
  wraps at \<open>2 ^ 32\<close>.
\<close>

fun packedSize :: "layout \<Rightarrow> Value \<Rightarrow> uint32" where
  "packedSize L (Value t i s d dd arr obj) =
     1 +
     (case t of
        EMPTY \<Rightarrow> 0
      | BOOL \<Rightarrow> of_nat (boolWidth L)
      | INTEGER \<Rightarrow> of_nat (intWidth L)
      | DOUBLE \<Rightarrow> of_nat (doubleWidth L)
      | STRING \<Rightarrow> of_nat (lengthWidth L) + of_nat (length s)
      | ARRAY \<Rightarrow> sum_list (map (packedSize L) arr) + of_nat (length (endMarker L))
      | OBJECT \<Rightarrow>
          sum_list (map (\<lambda>(k, c). of_nat (lengthWidth L) + of_nat (length k) + packedSize L c) obj)
          + of_nat (length (endMarker L)))"

text \<open>One choice of the parameters, for concrete instances.\<close>

definition example_layout :: layout where
  "example_layout =
     \<lparr>marker = (\<lambda>t. case t of EMPTY \<Rightarrow> 0 | BOOL \<Rightarrow> 1 | INTEGER \<Rightarrow> 2 | DOUBLE \<Rightarrow> 3
                         | STRING \<Rightarrow> 4 | ARRAY \<Rightarrow> 5 | OBJECT \<Rightarrow> 6),
      boolWidth = 1, intWidth = 8, doubleWidth = 8, lengthWidth = 4, endMarker = [0xEE]\<rparr>"

section \<open>Lemmas about the run codec\<close>

subsection \<open>The loop of \<^verbatim>\<open>decodeVector\<close> over the remaining bytes\<close>

lemma drop_two: "i + 1 < length xs \<Longrightarrow> drop i xs = xs ! i # xs ! (i + 1) # drop (i + 2) xs"
  by (metis Cons_nth_drop_Suc Suc_eq_plus1 add_2_eq_Suc' add_lessD1)

lemma drop_last_one: "i < length xs \<Longrightarrow> \<not> i + 1 < length xs \<Longrightarrow> drop i xs = [xs ! i]"
  by (metis Cons_nth_drop_Suc Suc_eq_plus1 drop_all not_less)

lemma decodeVector_for_end:
  "\<not> i < length input \<Longrightarrow> decodeVector_for s input i tmp result = Inr result"
  by (subst decodeVector_for.simps) simp

lemma decodeVector_for_body:
  "i < length input \<Longrightarrow>
   decodeVector_for s input i tmp result =
     (if INT_MAX < i + 2 then Inl IndexOverflow
      else if curLen2 s (input ! i) (if i + 1 < length input then input ! (i + 1) else 0) \<noteq> 0xFFFF
      then decodeVector_for s input (i + 2) 0
             (result @ [tmp + curLen2 s (input ! i) (if i + 1 < length input then input ! (i + 1) else 0)])
      else decodeVector_for s input (i + 2)
             (tmp + curLen2 s (input ! i) (if i + 1 < length input then input ! (i + 1) else 0)) result)"
  by (subst decodeVector_for.simps) (auto simp: byte_at_def Let_def)

lemma decodeVector_for_list:
  assumes "length input \<le> 2147483646"
  shows "decodeVector_for s input i tmp result = Inr (result @ decode2_list s tmp (drop i input))"
proof (induction "length input - i" arbitrary: i tmp result rule: less_induct)
  case less
  show ?case
  proof (cases "i < length input")
    case False
    then show ?thesis by (simp add: decodeVector_for_end)
  next
    case True
    have nov: "\<not> INT_MAX < i + 2" using True assms by (simp add: INT_MAX_def)
    have smaller: "length input - (i + 2) < length input - i" using True by simp
    show ?thesis
    proof (cases "i + 1 < length input")
      case False
      have d: "drop i input = [input ! i]" using True False by (rule drop_last_one)
      have e: "\<not> i + 2 < length input" using False by simp
      show ?thesis
        using True False nov
        by (simp add: decodeVector_for_body d decodeVector_for_end)
    next
      case t: True
      show ?thesis
        using less [OF smaller] True t nov
        by (simp add: decodeVector_for_body drop_two)
    qed
  qed
qed

lemma decodeVector_list:
  "length input \<le> 2147483646 \<Longrightarrow> decodeVector s input prior = Inr (decode2_list s 0 input)"
  by (simp add: decodeVector_def clear_def decodeVector_for_list)

subsection \<open>Faults of \<^verbatim>\<open>decodeVector\<close>\<close>


lemma decodeVector_for_overflow:
  assumes "2147483646 < length input"
  shows "even i \<Longrightarrow> i \<le> 2147483646 \<Longrightarrow> decodeVector_for s input i tmp result = Inl IndexOverflow"
proof (induction "2147483646 - i" arbitrary: i tmp result rule: less_induct)
  case less
  have lt: "i < length input" using less.prems assms by simp
  show ?case
  proof (cases "INT_MAX < i + 2")
    case True
    then show ?thesis using lt by (simp add: decodeVector_for_body)
  next
    case False
    then have "i + 2 \<le> 2147483647" by (simp add: INT_MAX_def)
    moreover have "even (i + 2)" using less.prems by simp
    ultimately have le: "i + 2 \<le> 2147483646" by presburger
    have smaller: "2147483646 - (i + 2) < 2147483646 - i" using le by simp
    show ?thesis
      using less.hyps [OF smaller \<open>even (i + 2)\<close> le] lt False
      by (simp add: decodeVector_for_body)
  qed
qed

lemma decodeVector_overflow_iff:
  "decodeVector s input prior = Inl IndexOverflow \<longleftrightarrow> 2147483646 < length input"
proof
  assume a: "decodeVector s input prior = Inl IndexOverflow"
  show "2147483646 < length input"
  proof (rule ccontr)
    assume "\<not> 2147483646 < length input"
    then have "decodeVector s input prior = Inr (decode2_list s 0 input)"
      by (intro decodeVector_list) simp
    with a show False by simp
  qed
next
  assume "2147483646 < length input"
  then show "decodeVector s input prior = Inl IndexOverflow"
    by (simp add: decodeVector_def decodeVector_for_overflow)
qed

subsection \<open>One 2-byte field, written and read back\<close>

lemma sdiv256: "0 \<le> (a::int) \<Longrightarrow> a sdiv 256 = a div 256"
  by (simp add: signed_divide_int_def sgn_if)

lemma smod256: "0 \<le> (a::int) \<Longrightarrow> a smod 256 = a mod 256"
  by (simp add: signed_modulo_int_def sgn_if)

lemma ucast_byte_of_int:
  "0 \<le> a \<Longrightarrow> a < 256 \<Longrightarrow> (ucast (word_of_int a :: byte) :: uint32) = word_of_int a"
  by (simp add: unsigned_of_int take_bit_int_eq_self)

lemma curLen2_unsigned_of_int:
  assumes "0 \<le> r" "r < 65536"
  shows "curLen2 False (word_of_int (r div 256)) (word_of_int (r mod 256)) = word_of_int r"
proof -
  have hi: "0 \<le> r div 256" "r div 256 < 256" using assms by auto
  have lo: "0 \<le> r mod 256" "r mod 256 < 256" by auto
  have "curLen2 False (word_of_int (r div 256)) (word_of_int (r mod 256))
        = (word_of_int (r div 256) :: uint32) * 256 + word_of_int (r mod 256)"
    by (simp add: curLen2_def char_to_int_def ucast_byte_of_int hi lo push_bit_eq_mult)
  also have "\<dots> = word_of_int (r div 256 * 256 + r mod 256)"
    by (simp only: of_int_add of_int_mult of_int_numeral)
  also have "r div 256 * 256 + r mod 256 = r"
    by simp
  finally show ?thesis .
qed

lemma word_of_int_neq_max2:
  assumes "0 \<le> r" "r < 65535"
  shows "(word_of_int r :: uint32) \<noteq> 0xFFFF"
proof
  assume "(word_of_int r :: uint32) = 0xFFFF"
  then have "uint (word_of_int r :: uint32) = uint (0xFFFF :: uint32)" by simp
  then have "r = 65535" using assms by (simp add: uint_word_of_int_eq take_bit_int_eq_self)
  with assms show False by simp
qed

subsection \<open>Closed form of \<^verbatim>\<open>encodeVector\<close>\<close>

lemma encodeVector_while_closed:
  "encodeVector_while result tmp =
     (result @ concat (replicate (nat (tmp div 0xFFFF)) [0xFF, 0xFF]),
      tmp - 0xFFFF * int (nat (tmp div 0xFFFF)))"
proof (induction result tmp rule: encodeVector_while.induct)
  case (1 result tmp)
  show ?case
  proof (cases "0xFFFF \<le> tmp")
    case True
    have d: "tmp div 65535 = (tmp - 65535) div 65535 + 1"
      using div_add_self2 [of 65535 "tmp - 65535"] by simp
    have "0 \<le> (tmp - 65535) div 65535" using True by simp
    then have n: "nat (tmp div 65535) = Suc (nat ((tmp - 65535) div 65535))"
      using d by simp
    show ?thesis
      using "1.IH" True by (subst encodeVector_while.simps) (simp add: n)
  next
    case False
    then have "tmp div 65535 \<le> 0"
      by (cases "0 \<le> tmp") (simp_all add: div_pos_pos_trivial div_int_pos_iff not_le)
    then show ?thesis using False
      by (subst encodeVector_while.simps) simp
  qed
qed

lemma encodeVector_step_closed: "encodeVector_step result v = result @ chunk2 v"
  by (simp add: chunk2_def encodeVector_step_def encodeVector_while_closed)

lemma encodeVector_for_closed: "encodeVector_for result S = result @ concat (map chunk2 S)"
  by (induction S arbitrary: result) (simp_all add: encodeVector_step_closed)

lemma encodeVector_closed: "encodeVector S = concat (map chunk2 S)"
  by (simp add: encodeVector_def encodeVector_for_closed)

lemma rem_nonneg:
  assumes "0 \<le> v"
  shows "v - 65535 * int (nat (v div 65535)) = v mod 65535"
proof -
  have "0 \<le> v div 65535" using assms by (simp add: div_int_pos_iff)
  then have "int (nat (v div 65535)) = v div 65535" by simp
  then show ?thesis by (simp add: minus_mult_div_eq_mod)
qed

lemma chunk2_nonneg:
  "0 \<le> v \<Longrightarrow> chunk2 v = concat (replicate (nat (v div 0xFFFF)) [0xFF, 0xFF])
     @ [word_of_int (v mod 0xFFFF div 256), word_of_int (v mod 0xFFFF mod 256)]"
  by (simp only: chunk2_def encodeVector_step_def encodeVector_while_closed rem_nonneg) (simp add: sdiv256 smod256)

lemma length_run2: "length (concat (replicate k [x, y])) = 2 * k"
  by (induction k) simp_all

lemma length_run4: "length (concat (replicate k [x, y, z, u])) = 4 * k"
  by (induction k) simp_all

lemma length_chunk2: "0 \<le> v \<Longrightarrow> length (chunk2 v) = 2 * nat (v div 0xFFFF) + 2"
  by (simp add: chunk2_nonneg length_run2)

subsection \<open>Decoding an encoding, modulo \<open>2 ^ 32\<close>\<close>

lemma curLen2_max: "curLen2 False 0xFF 0xFF = 0xFFFF"
  by (simp add: curLen2_def char_to_int_def)

lemma decode2_list_run:
  "decode2_list False tmp (concat (replicate k [0xFF, 0xFF]) @ rest)
     = decode2_list False (tmp + 0xFFFF * of_nat k) rest"
  by (induction k arbitrary: tmp) (simp_all add: curLen2_max algebra_simps)

lemma decode2_list_chunk2:
  assumes "0 \<le> v"
  shows "decode2_list False tmp (chunk2 v @ rest) = (tmp + word_of_int v) # decode2_list False 0 rest"
proof -
  let ?r = "v mod 65535"
  have r: "0 \<le> ?r" "?r < 65535" "?r < 65536" by auto
  have c: "curLen2 False (word_of_int (?r div 256)) (word_of_int (?r mod 256)) = word_of_int ?r"
    using r by (intro curLen2_unsigned_of_int) auto
  have ne: "(word_of_int ?r :: uint32) \<noteq> 0xFFFF"
    using r by (intro word_of_int_neq_max2) auto
  have "(word_of_int v :: uint32) = word_of_int (65535 * (v div 65535) + ?r)"
    by simp
  also have "\<dots> = 65535 * word_of_int (v div 65535) + word_of_int ?r"
    by (simp only: of_int_add of_int_mult of_int_numeral)
  also have "(word_of_int (v div 65535) :: uint32) = of_nat (nat (v div 65535))"
    using assms by (simp add: div_int_pos_iff)
  finally have v: "(word_of_int v :: uint32) = 65535 * of_nat (nat (v div 65535)) + word_of_int ?r" .
  show ?thesis
    using c ne by (simp add: chunk2_nonneg [OF assms] decode2_list_run v add.assoc)
qed

lemma decode2_list_chunks:
  assumes "\<forall>v\<in>set S. 0 \<le> v"
  shows "decode2_list False 0 (concat (map chunk2 S) @ rest)
     = map word_of_int S @ decode2_list False 0 rest"
  using assms by (induction S) (simp_all add: decode2_list_chunk2)

lemma roundtrip2_mod:
  assumes "\<forall>v\<in>set S. 0 \<le> v" and "length (encodeVector S) \<le> 2147483646"
  shows "decodeVector False (encodeVector S) prior = Inr (map word_of_int S)"
  using decode2_list_chunks [OF assms(1), of "[]"] assms(2)
  by (simp add: decodeVector_list encodeVector_closed)

subsection \<open>One 4-byte field, written and read back\<close>

lemma and_mask_byte3: "drop_bit 24 ((r::int) AND 0xFF000000) = take_bit 8 (drop_bit 24 r)"
proof -
  have "drop_bit 24 (r AND 0xFF000000) = drop_bit 24 r AND drop_bit 24 0xFF000000"
    by (rule drop_bit_and)
  also have "drop_bit 24 (0xFF000000::int) = mask 8"
    by (simp add: drop_bit_eq_div mask_eq_exp_minus_1)
  finally show ?thesis by (simp only: take_bit_eq_mask)
qed

lemma and_mask_byte2: "drop_bit 16 ((r::int) AND 0x00FF0000) = take_bit 8 (drop_bit 16 r)"
proof -
  have "drop_bit 16 (r AND 0x00FF0000) = drop_bit 16 r AND drop_bit 16 0x00FF0000"
    by (rule drop_bit_and)
  also have "drop_bit 16 (0x00FF0000::int) = mask 8"
    by (simp add: drop_bit_eq_div mask_eq_exp_minus_1)
  finally show ?thesis by (simp only: take_bit_eq_mask)
qed

lemma and_mask_byte1: "drop_bit 8 ((r::int) AND 0x0000FF00) = take_bit 8 (drop_bit 8 r)"
proof -
  have "drop_bit 8 (r AND 0x0000FF00) = drop_bit 8 r AND drop_bit 8 0x0000FF00"
    by (rule drop_bit_and)
  also have "drop_bit 8 (0x0000FF00::int) = mask 8"
    by (simp add: drop_bit_eq_div mask_eq_exp_minus_1)
  finally show ?thesis by (simp only: take_bit_eq_mask)
qed

lemma and_mask_byte0: "(r::int) AND 0x000000FF = take_bit 8 r"
proof -
  have "(0xFF::int) = mask 8" by (simp add: mask_eq_exp_minus_1)
  then show ?thesis
    by (simp only: take_bit_eq_mask)
qed

lemma ucast_byte_take_bit: "(ucast (word_of_int a :: byte) :: uint32) = word_of_int (take_bit 8 a)"
  by (simp add: unsigned_of_int)

lemma split4: "(r::int) mod 4294967296 = 16777216 * (r div 16777216 mod 256) + (65536 * (r div 65536 mod 256) + (256 * (r div 256 mod 256) + r mod 256))"
proof -
  have a: "r mod (16777216 * 256) = 16777216 * (r div 16777216 mod 256) + r mod 16777216"
    by (rule zmod_zmult2_eq) simp
  have b: "r mod (65536 * 256) = 65536 * (r div 65536 mod 256) + r mod 65536"
    by (rule zmod_zmult2_eq) simp
  have c: "r mod (256 * 256) = 256 * (r div 256 mod 256) + r mod 256"
    by (rule zmod_zmult2_eq) simp
  have n: "(4294967296::int) = 16777216 * 256" "(16777216::int) = 65536 * 256" "(65536::int) = 256 * 256"
    by simp_all
  have "r mod 4294967296 = 16777216 * (r div 16777216 mod 256) + r mod 16777216"
    using a by (simp only: n(1) [symmetric])
  also have "r mod 16777216 = 65536 * (r div 65536 mod 256) + r mod 65536"
    using b by (simp only: n(2) [symmetric])
  also have "r mod 65536 = 256 * (r div 256 mod 256) + r mod 256"
    using c by (simp only: n(3) [symmetric])
  finally show ?thesis .
qed

lemma curLen4_unsigned_of_int:
  "curLen4 False (word_of_int (drop_bit 24 (r AND 0xFF000000)))
                 (word_of_int (drop_bit 16 (r AND 0x00FF0000)))
                 (word_of_int (drop_bit 8 (r AND 0x0000FF00)))
                 (word_of_int (r AND 0x000000FF)) = word_of_int r"
proof -
  have "curLen4 False (word_of_int (drop_bit 24 (r AND 0xFF000000)))
                 (word_of_int (drop_bit 16 (r AND 0x00FF0000)))
                 (word_of_int (drop_bit 8 (r AND 0x0000FF00)))
                 (word_of_int (r AND 0x000000FF))
      = (word_of_int (16777216 * (r div 16777216 mod 256) + (65536 * (r div 65536 mod 256) + (256 * (r div 256 mod 256) + r mod 256))) :: uint32)"
    unfolding and_mask_byte3 and_mask_byte2 and_mask_byte1 and_mask_byte0 curLen4_def char_to_int_def
    by (simp add: ucast_byte_take_bit push_bit_eq_mult take_bit_eq_mod drop_bit_eq_div)
  also have "\<dots> = word_of_int (r mod 4294967296)"
    by (simp only: split4)
  also have "\<dots> = word_of_int r"
    by (simp add: word_eq_iff_unsigned [where ?'a = int] uint_word_of_int_eq take_bit_eq_mod)
  finally show ?thesis .
qed

subsection \<open>The loop of \<^verbatim>\<open>decodeVector4\<close> over the remaining bytes\<close>

lemma drop_four:
  "i + 3 < length xs \<Longrightarrow>
   drop i xs = xs ! i # xs ! (i + 1) # xs ! (i + 2) # xs ! (i + 3) # drop (i + 4) xs"
proof -
  assume a: "i + 3 < length xs"
  have "drop i xs = xs ! i # drop (Suc i) xs" using a by (simp add: Cons_nth_drop_Suc)
  also have "drop (Suc i) xs = xs ! (Suc i) # drop (Suc (Suc i)) xs" using a by (simp add: Cons_nth_drop_Suc)
  also have "drop (Suc (Suc i)) xs = xs ! (Suc (Suc i)) # drop (Suc (Suc (Suc i))) xs"
    using a by (simp add: Cons_nth_drop_Suc)
  also have "drop (Suc (Suc (Suc i))) xs = xs ! (Suc (Suc (Suc i))) # drop (Suc (Suc (Suc (Suc i)))) xs"
    using a by (simp add: Cons_nth_drop_Suc)
  finally show ?thesis by (simp add: numeral_eq_Suc)
qed

lemma drop_last_three:
  assumes "i + 2 < length xs" "\<not> i + 3 < length xs"
  shows "drop i xs = [xs ! i, xs ! (i + 1), xs ! (i + 2)]"
proof -
  have "drop i xs = xs ! i # drop (Suc i) xs" using assms by (simp add: Cons_nth_drop_Suc)
  also have "drop (Suc i) xs = xs ! (Suc i) # drop (Suc (Suc i)) xs"
    using assms by (simp add: Cons_nth_drop_Suc)
  also have "drop (Suc (Suc i)) xs = [xs ! (Suc (Suc i))]"
    using drop_last_one [of "Suc (Suc i)" xs] assms by simp
  finally show ?thesis by (simp add: numeral_eq_Suc)
qed

lemma decodeVector4_for_end:
  "\<not> i < length input \<Longrightarrow> decodeVector4_for s input i tmp result = Inr result"
  by (subst decodeVector4_for.simps) simp

lemma decodeVector4_for_short:
  "i < length input \<Longrightarrow> \<not> i + 2 < length input \<Longrightarrow>
   decodeVector4_for s input i tmp result = Inl ReadOutsideString"
  by (subst decodeVector4_for.simps) (auto simp: byte_at_def)

lemma decodeVector4_for_body:
  "i + 2 < length input \<Longrightarrow>
   decodeVector4_for s input i tmp result =
     (if INT_MAX < i + 4 then Inl IndexOverflow
      else if curLen4 s (input ! i) (input ! (i + 1)) (input ! (i + 2))
                (if i + 3 < length input then input ! (i + 3) else 0) \<noteq> 0xFFFFFFFF
      then decodeVector4_for s input (i + 4) 0
             (result @ [tmp + curLen4 s (input ! i) (input ! (i + 1)) (input ! (i + 2))
                                (if i + 3 < length input then input ! (i + 3) else 0)])
      else decodeVector4_for s input (i + 4)
             (tmp + curLen4 s (input ! i) (input ! (i + 1)) (input ! (i + 2))
                      (if i + 3 < length input then input ! (i + 3) else 0)) result)"
  by (subst decodeVector4_for.simps) (auto simp: byte_at_def Let_def)

lemma decode4_list_short:
  "xs \<noteq> [] \<Longrightarrow> length xs < 3 \<Longrightarrow> decode4_list s tmp xs = None"
  by (cases "(s, tmp, xs)" rule: decode4_list.cases) simp_all

lemma decodeVector4_for_list:
  assumes "length input \<le> 2147483646"
  shows "decodeVector4_for s input i tmp result =
           (case decode4_list s tmp (drop i input) of
              None \<Rightarrow> Inl ReadOutsideString
            | Some r \<Rightarrow> Inr (result @ r))"
proof (induction "length input - i" arbitrary: i tmp result rule: less_induct)
  case less
  show ?case
  proof (cases "i < length input")
    case False
    then show ?thesis by (simp add: decodeVector4_for_end)
  next
    case True
    show ?thesis
    proof (cases "i + 2 < length input")
      case False
      with True have "drop i input \<noteq> []" "length (drop i input) < 3" by auto
      then have "decode4_list s tmp (drop i input) = None" by (rule decode4_list_short)
      with True False show ?thesis by (simp add: decodeVector4_for_short)
    next
      case in3: True
      have nov: "\<not> INT_MAX < i + 4" using in3 assms by (simp add: INT_MAX_def)
      have smaller: "length input - (i + 4) < length input - i" using True by simp
      show ?thesis
      proof (cases "i + 3 < length input")
        case False
        have d: "drop i input = [input ! i, input ! (i + 1), input ! (i + 2)]"
          using in3 False by (rule drop_last_three)
        show ?thesis
          using in3 False nov by (simp add: decodeVector4_for_body d decodeVector4_for_end)
      next
        case t: True
        show ?thesis
          using less [OF smaller] in3 t nov
          by (simp add: decodeVector4_for_body drop_four split: option.splits)
      qed
    qed
  qed
qed

lemma decodeVector4_list:
  "length input \<le> 2147483646 \<Longrightarrow>
   decodeVector4 s input prior =
     (case decode4_list s 0 input of None \<Rightarrow> Inl ReadOutsideString | Some r \<Rightarrow> Inr r)"
  by (simp add: decodeVector4_def clear_def decodeVector4_for_list split: option.splits)

subsection \<open>Faults of \<^verbatim>\<open>decodeVector4\<close>\<close>

lemma length_four_more: "length (b0 # b1 # b2 # b3 # rest) mod 4 = length rest mod 4"
proof -
  have "length (b0 # b1 # b2 # b3 # rest) = length rest + 4" by simp
  then show ?thesis by (simp only: mod_add_self2)
qed




subsection \<open>Closed form of \<^verbatim>\<open>encodeVector4\<close> and decoding its output\<close>

lemma encodeVector4_while_closed:
  "encodeVector4_while result tmp =
     (result @ concat (replicate (nat (tmp div 0xFFFFFFFF)) [0xFF, 0xFF, 0xFF, 0xFF]),
      tmp - 0xFFFFFFFF * int (nat (tmp div 0xFFFFFFFF)))"
proof (induction result tmp rule: encodeVector4_while.induct)
  case (1 result tmp)
  show ?case
  proof (cases "0xFFFFFFFF \<le> tmp")
    case True
    have d: "tmp div 4294967295 = (tmp - 4294967295) div 4294967295 + 1"
      using div_add_self2 [of 4294967295 "tmp - 4294967295"] by simp
    have "0 \<le> (tmp - 4294967295) div 4294967295" using True by simp
    then have n: "nat (tmp div 4294967295) = Suc (nat ((tmp - 4294967295) div 4294967295))"
      using d by simp
    show ?thesis
      using "1.IH" True by (subst encodeVector4_while.simps) (simp add: n)
  next
    case False
    then have "tmp div 4294967295 \<le> 0"
      by (cases "0 \<le> tmp") (simp_all add: div_pos_pos_trivial div_int_pos_iff not_le)
    then show ?thesis using False
      by (subst encodeVector4_while.simps) simp
  qed
qed

lemma encodeVector4_step_closed: "encodeVector4_step result v = result @ chunk4 v"
  by (simp add: chunk4_def encodeVector4_step_def encodeVector4_while_closed)

lemma encodeVector4_for_closed: "encodeVector4_for result S = result @ concat (map chunk4 S)"
  by (induction S arbitrary: result) (simp_all add: encodeVector4_step_closed)

lemma encodeVector4_closed: "encodeVector4 S = concat (map chunk4 S)"
  by (simp add: encodeVector4_def encodeVector4_for_closed)

lemma rem4_nonneg:
  assumes "0 \<le> v"
  shows "v - 4294967295 * int (nat (v div 4294967295)) = v mod 4294967295"
proof -
  have "0 \<le> v div 4294967295" using assms by (simp add: div_int_pos_iff)
  then have "int (nat (v div 4294967295)) = v div 4294967295" by simp
  then show ?thesis by (simp add: minus_mult_div_eq_mod)
qed

lemma chunk4_nonneg:
  "0 \<le> v \<Longrightarrow> chunk4 v = concat (replicate (nat (v div 0xFFFFFFFF)) [0xFF, 0xFF, 0xFF, 0xFF])
     @ [word_of_int (drop_bit 24 (v mod 0xFFFFFFFF AND 0xFF000000)),
        word_of_int (drop_bit 16 (v mod 0xFFFFFFFF AND 0x00FF0000)),
        word_of_int (drop_bit 8 (v mod 0xFFFFFFFF AND 0x0000FF00)),
        word_of_int (v mod 0xFFFFFFFF AND 0x000000FF)]"
  by (simp only: chunk4_def encodeVector4_step_def encodeVector4_while_closed rem4_nonneg) simp

lemma length_chunk4: "0 \<le> v \<Longrightarrow> length (chunk4 v) = 4 * nat (v div 0xFFFFFFFF) + 4"
  by (simp add: chunk4_nonneg length_run4)

lemma curLen4_max: "curLen4 False 0xFF 0xFF 0xFF 0xFF = 0xFFFFFFFF"
  by (simp add: curLen4_def char_to_int_def)

lemma decode4_list_run:
  "decode4_list False tmp (concat (replicate k [0xFF, 0xFF, 0xFF, 0xFF]) @ rest)
     = decode4_list False (tmp + 0xFFFFFFFF * of_nat k) rest"
  by (induction k arbitrary: tmp) (simp_all add: curLen4_max algebra_simps)

lemma word_of_int_neq_max4:
  assumes "0 \<le> r" "r < 4294967295"
  shows "(word_of_int r :: uint32) \<noteq> 0xFFFFFFFF"
proof
  assume "(word_of_int r :: uint32) = 0xFFFFFFFF"
  then have "uint (word_of_int r :: uint32) = uint (0xFFFFFFFF :: uint32)" by simp
  then have "r = 4294967295" using assms by (simp add: uint_word_of_int_eq take_bit_int_eq_self)
  with assms show False by simp
qed

lemma curLen4_unsigned_of_int':
  "curLen4 False (word_of_int (drop_bit 24 r AND 255)) (word_of_int (drop_bit 16 r AND 255))
     (word_of_int (drop_bit 8 r AND 255)) (word_of_int (r AND 255)) = word_of_int r"
  using curLen4_unsigned_of_int [of r] by simp

lemma decode4_list_chunk4:
  assumes "0 \<le> v"
  shows "decode4_list False tmp (chunk4 v @ rest)
     = map_option ((#) (tmp + word_of_int v)) (decode4_list False 0 rest)"
proof -
  let ?r = "v mod 4294967295"
  have r: "0 \<le> ?r" "?r < 4294967295" by auto
  have ne: "(word_of_int ?r :: uint32) \<noteq> 0xFFFFFFFF"
    using r by (rule word_of_int_neq_max4)
  have "(word_of_int v :: uint32) = word_of_int (4294967295 * (v div 4294967295) + ?r)"
    by simp
  also have "\<dots> = 4294967295 * word_of_int (v div 4294967295) + word_of_int ?r"
    by (simp only: of_int_add of_int_mult of_int_numeral)
  also have "(word_of_int (v div 4294967295) :: uint32) = of_nat (nat (v div 4294967295))"
    using assms by (simp add: div_int_pos_iff)
  finally have v: "(word_of_int v :: uint32) = 4294967295 * of_nat (nat (v div 4294967295)) + word_of_int ?r" .
  show ?thesis
    using ne by (simp add: chunk4_nonneg [OF assms] decode4_list_run curLen4_unsigned_of_int' v add.assoc)
qed

lemma decode4_list_chunks:
  assumes "\<forall>v\<in>set S. 0 \<le> v"
  shows "decode4_list False 0 (concat (map chunk4 S) @ rest)
     = map_option ((@) (map word_of_int S)) (decode4_list False 0 rest)"
  using assms
proof (induction S)
  case Nil
  then show ?case by (simp add: option.map_ident)
next
  case (Cons v S)
  then show ?case
    by (simp add: decode4_list_chunk4 option.map_comp comp_def)
qed

lemma roundtrip4_mod:
  assumes "\<forall>v\<in>set S. 0 \<le> v" and "length (encodeVector4 S) \<le> 2147483646"
  shows "decodeVector4 False (encodeVector4 S) prior = Inr (map word_of_int S)"
  using decode4_list_chunks [OF assms(1), of "[]"] assms(2)
  by (simp add: decodeVector4_list encodeVector4_closed)

subsection \<open>\<^verbatim>\<open>encodeVector\<close> and the specified encoding\<close>

lemma spec_run_closed:
  "0 < M \<Longrightarrow> spec_run M v = replicate (v div M) M @ [v mod M]"
proof (induction M v rule: spec_run.induct)
  case (1 M v)
  show ?case
  proof (cases "M \<le> v")
    case True
    then have "v div M = Suc ((v - M) div M)" "v mod M = (v - M) mod M"
      using "1.prems" by (simp_all add: le_div_geq le_mod_geq)
    then show ?thesis using "1.IH" "1.prems" True
      by (subst spec_run.simps) simp
  next
    case False
    then show ?thesis using "1.prems" by (subst spec_run.simps) simp
  qed
qed

lemma be16_max: "be16 0xFFFF = [0xFF, 0xFF]"
  by (simp add: be16_def)

lemma concat_map_replicate: "concat (map f (replicate k x)) = concat (replicate k (f x))"
  by (induction k) simp_all

lemma chunk2_spec:
  assumes "0 \<le> v"
  shows "chunk2 v = concat (map be16 (spec_run 0xFFFF (nat v)))"
proof -
  have d: "nat v div 65535 = nat (v div 65535)"
    using assms by (simp add: nat_div_distrib)
  have "int (nat v mod 65535) = int (nat v) mod 65535"
    by (simp add: zmod_int)
  then have m: "int (nat v mod 65535) = v mod 65535"
    using assms by simp
  have "(of_nat (nat v mod 65535 div 256) :: byte) = word_of_int (int (nat v mod 65535 div 256))"
    by simp
  also have "int (nat v mod 65535 div 256) = v mod 65535 div 256"
    using m by (simp add: zdiv_int)
  finally have hi: "(of_nat (nat v mod 65535 div 256) :: byte) = word_of_int (v mod 65535 div 256)" .
  have "(of_nat (nat v mod 65535 mod 256) :: byte) = word_of_int (int (nat v mod 65535 mod 256))"
    by simp
  also have "int (nat v mod 65535 mod 256) = v mod 65535 mod 256"
    using m by (simp add: zmod_int)
  finally have lo: "(of_nat (nat v mod 65535 mod 256) :: byte) = word_of_int (v mod 65535 mod 256)" .
  show ?thesis
    by (simp add: chunk2_nonneg [OF assms] spec_run_closed concat_map_replicate be16_max d)
       (simp add: be16_def hi lo)
qed

lemma encodeVector_spec:
  assumes "\<forall>v\<in>set S. 0 \<le> v"
  shows "encodeVector S = spec_encode2 (map nat S)"
  using assms by (simp add: encodeVector_closed spec_encode2_def comp_def chunk2_spec cong: map_cong)

subsection \<open>\<^verbatim>\<open>decodeVector\<close> with unsigned \<^verbatim>\<open>char\<close> and the specified decoding\<close>

lemma ucast_byte_of_nat: "(ucast (b :: byte) :: uint32) = of_nat (unat b)"
  by simp

lemma curLen2_unsigned_value: "curLen2 False b0 b1 = of_nat (be16_value b0 b1)"
  by (simp add: curLen2_def char_to_int_def be16_value_def push_bit_eq_mult)

lemma be16_value_bound: "be16_value b0 b1 \<le> 65535"
proof -
  have "unat b0 < 256" "unat b1 < 256" using unsigned_less [of b0] unsigned_less [of b1] by simp_all
  then show ?thesis by (simp add: be16_value_def)
qed

lemma curLen2_unsigned_max_iff: "curLen2 False b0 b1 = 0xFFFF \<longleftrightarrow> be16_value b0 b1 = 0xFFFF"
proof
  assume "curLen2 False b0 b1 = 0xFFFF"
  then have "unat (of_nat (be16_value b0 b1) :: uint32) = unat (0xFFFF :: uint32)"
    by (simp add: curLen2_unsigned_value)
  moreover have "unat (of_nat (be16_value b0 b1) :: uint32) = be16_value b0 b1"
    using be16_value_bound [of b0 b1] by (simp add: unat_of_nat)
  ultimately show "be16_value b0 b1 = 0xFFFF" by simp
next
  assume "be16_value b0 b1 = 0xFFFF"
  then show "curLen2 False b0 b1 = 0xFFFF" by (simp add: curLen2_unsigned_value)
qed

lemma decode2_list_spec:
  "even (length xs) \<Longrightarrow>
   decode2_list False (of_nat acc) xs = map of_nat (spec_decode 0xFFFF acc (fields2 xs))"
proof (induction xs arbitrary: acc rule: fields2.induct)
  case (1 b0 b1 rest)
  have ev: "even (length rest)" using "1.prems" by simp
  show ?case
  proof (cases "be16_value b0 b1 = 0xFFFF")
    case True
    then show ?thesis
      using "1.IH" [OF ev, of "acc + 65535"] by (simp add: curLen2_unsigned_max_iff curLen2_unsigned_value)
  next
    case False
    then have lt: "be16_value b0 b1 < 65535" using be16_value_bound [of b0 b1] by simp
    show ?thesis
      using "1.IH" [OF ev, of 0] False lt
      by (simp add: curLen2_unsigned_max_iff) (simp add: curLen2_unsigned_value)
  qed
qed simp_all

lemma decodeVector_unsigned_refines_spec:
  assumes "even (length input)" and "length input \<le> 2147483646"
  shows "decodeVector False input prior = Inr (map of_nat (spec_decode 0xFFFF 0 (fields2 input)))"
  using decode2_list_spec [OF assms(1), of 0] assms(2) by (simp add: decodeVector_list)

subsection \<open>Trailing runs with unsigned \<^verbatim>\<open>char\<close>\<close>

lemma decode2_list_run_Nil:
  "decode2_list False tmp (concat (replicate k [0xFF, 0xFF])) = []"
  using decode2_list_run [of tmp k "[]"] by simp

lemma decode4_list_run_Nil:
  "decode4_list False tmp (concat (replicate k [0xFF, 0xFF, 0xFF, 0xFF])) = Some []"
  using decode4_list_run [of tmp k "[]"] by simp

lemma trailing_run_discarded_unsigned:
  assumes "\<forall>v\<in>set S. 0 \<le> v"
  shows "length (encodeVector S @ concat (replicate k [0xFF, 0xFF])) \<le> 2147483646 \<Longrightarrow>
         decodeVector False (encodeVector S @ concat (replicate k [0xFF, 0xFF])) prior
           = Inr (map word_of_int S)"
    and "length (encodeVector4 S @ concat (replicate k [0xFF, 0xFF, 0xFF, 0xFF])) \<le> 2147483646 \<Longrightarrow>
         decodeVector4 False (encodeVector4 S @ concat (replicate k [0xFF, 0xFF, 0xFF, 0xFF])) prior
           = Inr (map word_of_int S)"
proof -
  assume "length (encodeVector S @ concat (replicate k [0xFF, 0xFF])) \<le> 2147483646"
  then show "decodeVector False (encodeVector S @ concat (replicate k [0xFF, 0xFF])) prior
           = Inr (map word_of_int S)"
    using decode2_list_chunks [OF assms, of "concat (replicate k [0xFF, 0xFF])"]
    by (simp add: decodeVector_list encodeVector_closed decode2_list_run_Nil)
next
  assume "length (encodeVector4 S @ concat (replicate k [0xFF, 0xFF, 0xFF, 0xFF])) \<le> 2147483646"
  then show "decodeVector4 False (encodeVector4 S @ concat (replicate k [0xFF, 0xFF, 0xFF, 0xFF])) prior
           = Inr (map word_of_int S)"
    using decode4_list_chunks [OF assms, of "concat (replicate k [0xFF, 0xFF, 0xFF, 0xFF])"]
    by (simp add: decodeVector4_list encodeVector4_closed decode4_list_run_Nil)
qed

subsection \<open>Fields read with signed \<^verbatim>\<open>char\<close>\<close>

lemma sint_byte_range: "- 128 \<le> sint (b :: byte)" "sint (b :: byte) \<le> 127"
  using sint_ge [of b] sint_lt [of b] by simp_all

lemma curLen2_signed_eq: "curLen2 True b0 b1 = word_of_int (sint b0 * 256 + sint b1)"
proof -
  have "curLen2 True b0 b1 = (scast b0 :: uint32) * 256 + scast b1"
    by (simp add: curLen2_def char_to_int_def push_bit_eq_mult)
  also have "\<dots> = (word_of_int (sint b0) :: uint32) * 256 + word_of_int (sint b1)"
    by (simp only: scast_eq)
  also have "\<dots> = word_of_int (sint b0 * 256 + sint b1)"
    by (simp only: of_int_add of_int_mult of_int_numeral)
  finally show ?thesis .
qed

lemma uint32_of_int: "uint (word_of_int x :: uint32) = x mod 4294967296"
  by (simp add: uint_word_of_int)

lemma curLen2_signed_never_max: "curLen2 True b0 b1 \<noteq> 0xFFFF"
proof
  define x where "x = sint b0 * 256 + sint b1"
  assume "curLen2 True b0 b1 = 0xFFFF"
  then have "(word_of_int x :: uint32) = 0xFFFF"
    by (simp only: curLen2_signed_eq x_def)
  then have "uint (word_of_int x :: uint32) = uint (0xFFFF :: uint32)"
    by (rule arg_cong)
  then have e: "x mod 4294967296 = 65535"
    by (simp only: uint32_of_int) simp
  have r: "- 32896 \<le> x" "x \<le> 32639"
    using sint_byte_range [of b0] sint_byte_range [of b1] by (simp_all add: x_def)
  show False
  proof (cases "0 \<le> x")
    case True
    have "x mod 4294967296 = x"
      using True r by (intro mod_pos_pos_trivial) simp_all
    then have "x = 65535" using e by (simp only:)
    then show False using r by linarith
  next
    case False
    have "(x + 4294967296) mod 4294967296 = x + 4294967296"
      using False r by (intro mod_pos_pos_trivial) simp_all
    then have "x mod 4294967296 = x + 4294967296"
      by (simp only: mod_add_self2)
    then have "x + 4294967296 = 65535" using e by (simp only:)
    then show False using r by linarith
  qed
qed

lemma curLen4_signed_eq:
  "curLen4 True b0 b1 b2 b3 = word_of_int (sint b0 * 16777216 + sint b1 * 65536 + sint b2 * 256 + sint b3)"
proof -
  have "curLen4 True b0 b1 b2 b3
      = (scast b0 :: uint32) * 16777216 + scast b1 * 65536 + scast b2 * 256 + scast b3"
    by (simp add: curLen4_def char_to_int_def push_bit_eq_mult)
  also have "\<dots> = (word_of_int (sint b0) :: uint32) * 16777216 + word_of_int (sint b1) * 65536
                    + word_of_int (sint b2) * 256 + word_of_int (sint b3)"
    by (simp only: scast_eq)
  also have "\<dots> = word_of_int (sint b0 * 16777216 + sint b1 * 65536 + sint b2 * 256 + sint b3)"
    by (simp only: of_int_add of_int_mult of_int_numeral)
  finally show ?thesis .
qed

subsection \<open>Values that fit the accumulator\<close>

lemma uint_word_of_int_32: "0 \<le> v \<Longrightarrow> v < 4294967296 \<Longrightarrow> uint (word_of_int v :: uint32) = v"
  by (simp add: uint_word_of_int_eq take_bit_int_eq_self)

lemma map_uint_word_of_int:
  "\<forall>v\<in>set S. 0 \<le> v \<and> v < 4294967296 \<Longrightarrow> map uint (map word_of_int S :: uint32 list) = S"
  by (induction S) (simp_all add: uint_word_of_int_32)

lemma map_uint_word_of_int_mod:
  "map uint (map word_of_int S :: uint32 list) = map (\<lambda>v. v mod 2 ^ 32) S"
  by (induction S) (simp_all add: uint_word_of_int)

lemma be16_value_of_int:
  assumes "0 \<le> r" "r < 65536"
  shows "be16_value (word_of_int (r div 256)) (word_of_int (r mod 256)) = nat r"
proof -
  have hi: "0 \<le> r div 256" "r div 256 < 256" using assms by auto
  have lo: "0 \<le> r mod 256" "r mod 256 < 256" by auto
  have a: "unat (word_of_int (r div 256) :: byte) = nat (r div 256)"
    using hi by (simp add: unat_eq_nat_uint uint_word_of_int_eq take_bit_int_eq_self)
  have b: "unat (word_of_int (r mod 256) :: byte) = nat (r mod 256)"
    using lo by (simp add: unat_eq_nat_uint uint_word_of_int_eq take_bit_int_eq_self)
  have "int (256 * nat (r div 256) + nat (r mod 256)) = 256 * (r div 256) + r mod 256"
    using hi lo by simp
  also have "\<dots> = r" by simp
  finally have "256 * nat (r div 256) + nat (r mod 256) = nat r" by linarith
  then show ?thesis by (simp only: be16_value_def a b)
qed

subsection \<open>\<^verbatim>\<open>encodeVector4\<close> and the specified encoding\<close>

lemma byte_of_int_take_bit: "(word_of_int (take_bit 8 x) :: byte) = word_of_int x"
  by (simp add: word_eq_iff_unsigned [where ?'a = int] uint_word_of_int_eq)

lemma byte_of_nat_mod: "(of_nat (n mod 256) :: byte) = of_nat n"
  by (simp add: word_eq_iff_unsigned [where ?'a = nat] unat_of_nat)

lemma byte_of_nat_div:
  assumes "0 \<le> r"
  shows "(word_of_int (r div int d) :: byte) = of_nat (nat r div d)"
proof -
  have "int (nat r div d) = r div int d" using assms by (simp add: zdiv_int)
  then have "(word_of_int (r div int d) :: byte) = word_of_int (int (nat r div d))" by simp
  then show ?thesis by simp
qed

lemma be32_bytes:
  assumes "0 \<le> r"
  shows "[word_of_int (drop_bit 24 (r AND 0xFF000000)),
          word_of_int (drop_bit 16 (r AND 0x00FF0000)),
          word_of_int (drop_bit 8 (r AND 0x0000FF00)),
          word_of_int (r AND 0x000000FF) :: byte] = be32 (nat r)"
proof -
  have "(word_of_int (drop_bit 24 (r AND 0xFF000000)) :: byte) = word_of_int (drop_bit 24 r)"
    by (simp only: and_mask_byte3 byte_of_int_take_bit)
  also have "drop_bit 24 r = r div int 16777216" by (simp add: drop_bit_eq_div)
  also have "(word_of_int (r div int 16777216) :: byte) = of_nat (nat r div 16777216)"
    using assms by (rule byte_of_nat_div)
  finally have b3: "(word_of_int (drop_bit 24 (r AND 0xFF000000)) :: byte) = of_nat (nat r div 16777216)" .
  have "(word_of_int (drop_bit 16 (r AND 0x00FF0000)) :: byte) = word_of_int (drop_bit 16 r)"
    by (simp only: and_mask_byte2 byte_of_int_take_bit)
  also have "drop_bit 16 r = r div int 65536" by (simp add: drop_bit_eq_div)
  also have "(word_of_int (r div int 65536) :: byte) = of_nat (nat r div 65536)"
    using assms by (rule byte_of_nat_div)
  finally have b2: "(word_of_int (drop_bit 16 (r AND 0x00FF0000)) :: byte) = of_nat (nat r div 65536)" .
  have "(word_of_int (drop_bit 8 (r AND 0x0000FF00)) :: byte) = word_of_int (drop_bit 8 r)"
    by (simp only: and_mask_byte1 byte_of_int_take_bit)
  also have "drop_bit 8 r = r div int 256" by (simp add: drop_bit_eq_div)
  also have "(word_of_int (r div int 256) :: byte) = of_nat (nat r div 256)"
    using assms by (rule byte_of_nat_div)
  finally have b1: "(word_of_int (drop_bit 8 (r AND 0x0000FF00)) :: byte) = of_nat (nat r div 256)" .
  have b0: "(word_of_int (r AND 0x000000FF) :: byte) = of_nat (nat r)"
    using assms by (simp only: and_mask_byte0 byte_of_int_take_bit) simp
  have top: "(of_nat (nat r div 16777216) :: byte) = of_nat (nat r div 16777216)" ..
  show ?thesis
    by (simp only: b3 b2 b1 b0 be32_def byte_of_nat_mod)
qed

lemma be32_max: "be32 0xFFFFFFFF = [0xFF, 0xFF, 0xFF, 0xFF]"
  by (simp add: be32_def)

lemma chunk4_spec:
  assumes "0 \<le> v"
  shows "chunk4 v = concat (map be32 (spec_run 0xFFFFFFFF (nat v)))"
proof -
  have d: "nat v div 4294967295 = nat (v div 4294967295)"
    using assms by (simp add: nat_div_distrib)
  have "int (nat v mod 4294967295) = int (nat v) mod 4294967295"
    by (simp add: zmod_int)
  then have "int (nat v mod 4294967295) = v mod 4294967295"
    using assms by simp
  then have m: "nat v mod 4294967295 = nat (v mod 4294967295)" by linarith
  have r: "0 \<le> v mod 4294967295" by simp
  have "chunk4 v = concat (replicate (nat (v div 4294967295)) [0xFF, 0xFF, 0xFF, 0xFF])
           @ be32 (nat (v mod 4294967295))"
    by (simp only: chunk4_nonneg [OF assms] be32_bytes [OF r])
  then show ?thesis
    by (simp add: spec_run_closed concat_map_replicate be32_max d m)
qed

lemma encodeVector4_spec:
  assumes "\<forall>v\<in>set S. 0 \<le> v"
  shows "encodeVector4 S = spec_encode4 (map nat S)"
  using assms by (simp add: encodeVector4_closed spec_encode4_def comp_def chunk4_spec cong: map_cong)

subsection \<open>\<^verbatim>\<open>decodeVector4\<close> with unsigned \<^verbatim>\<open>char\<close> and the specified decoding\<close>

lemma curLen4_unsigned_value: "curLen4 False b0 b1 b2 b3 = of_nat (be32_value b0 b1 b2 b3)"
  by (simp add: curLen4_def char_to_int_def be32_value_def push_bit_eq_mult)

lemma be32_value_bound: "be32_value b0 b1 b2 b3 \<le> 4294967295"
proof -
  have "unat b0 < 256" "unat b1 < 256" "unat b2 < 256" "unat b3 < 256"
    using unsigned_less [of b0] unsigned_less [of b1] unsigned_less [of b2] unsigned_less [of b3]
    by simp_all
  then show ?thesis unfolding be32_value_def by linarith
qed

lemma curLen4_unsigned_max_iff:
  "curLen4 False b0 b1 b2 b3 = 0xFFFFFFFF \<longleftrightarrow> be32_value b0 b1 b2 b3 = 0xFFFFFFFF"
proof
  assume "curLen4 False b0 b1 b2 b3 = 0xFFFFFFFF"
  then have "unat (of_nat (be32_value b0 b1 b2 b3) :: uint32) = unat (0xFFFFFFFF :: uint32)"
    by (simp only: curLen4_unsigned_value)
  moreover have "unat (of_nat (be32_value b0 b1 b2 b3) :: uint32) = be32_value b0 b1 b2 b3"
    using be32_value_bound [of b0 b1 b2 b3] by (simp add: unat_of_nat)
  ultimately show "be32_value b0 b1 b2 b3 = 0xFFFFFFFF" by simp
next
  assume "be32_value b0 b1 b2 b3 = 0xFFFFFFFF"
  then show "curLen4 False b0 b1 b2 b3 = 0xFFFFFFFF" by (simp add: curLen4_unsigned_value)
qed

lemma decode4_list_spec:
  "length xs mod 4 = 0 \<Longrightarrow>
   decode4_list False (of_nat acc) xs = Some (map of_nat (spec_decode 0xFFFFFFFF acc (fields4 xs)))"
proof (induction xs arbitrary: acc rule: fields4.induct)
  case (1 b0 b1 b2 b3 rest)
  from "1.prems" have ev: "length rest mod 4 = 0" by (simp only: length_four_more)
  show ?case
  proof (cases "be32_value b0 b1 b2 b3 = 0xFFFFFFFF")
    case True
    then show ?thesis
      using "1.IH" [OF ev, of "acc + 4294967295"]
      by (simp add: curLen4_unsigned_max_iff) (simp add: curLen4_unsigned_value)
  next
    case False
    then have lt: "be32_value b0 b1 b2 b3 < 4294967295" using be32_value_bound [of b0 b1 b2 b3] by simp
    show ?thesis
      using "1.IH" [OF ev, of 0] False lt
      by (simp add: curLen4_unsigned_max_iff) (simp add: curLen4_unsigned_value)
  qed
qed simp_all

lemma decodeVector4_unsigned_refines_spec:
  assumes "length input mod 4 = 0" and "length input \<le> 2147483646"
  shows "decodeVector4 False input prior = Inr (map of_nat (spec_decode 0xFFFFFFFF 0 (fields4 input)))"
  using decode4_list_spec [OF assms(1), of 0] assms(2) by (simp add: decodeVector4_list)

subsection \<open>An encoding too long for the index\<close>

lemma length_encodeVector_replicate:
  "length (encodeVector (replicate n v)) = n * length (chunk2 v)"
  by (induction n) (simp_all add: encodeVector_closed)

lemma decodeVector_overflow_example:
  "decodeVector False (encodeVector (replicate 16384 4294967295)) [] = Inl IndexOverflow"
proof -
  have "length (chunk2 4294967295) = 131076" by (simp add: length_chunk2)
  then have "length (encodeVector (replicate 16384 4294967295)) = 2147549184"
    by (simp add: length_encodeVector_replicate)
  then show ?thesis by (simp add: decodeVector_overflow_iff)
qed

section \<open>Lemmas about the packed size\<close>

lemma length_fixed_width: "length (fixed_width w n) = w"
  by (simp add: fixed_width_def)

lemma sum_children:
  assumes "\<And>c. c \<in> set arr \<Longrightarrow> f c = of_nat (length (g c))"
  shows "sum_list (map f arr) = (of_nat (length (concat (map g arr))) :: uint32)"
  using assms by (induction arr) simp_all

lemma sum_entries:
  assumes "\<forall>e\<in>set obj. f (snd e) = of_nat (length (g (snd e)))"
  shows "sum_list (map (\<lambda>(k, c). of_nat w + of_nat (length k) + f c) obj)
       = (of_nat (length (concat (map (\<lambda>(k, c). fixed_width w (length k) @ k @ g c) obj))) :: uint32)"
  using assms by (induction obj) (simp_all add: case_prod_beta length_fixed_width)

lemma packedSize_length: "packedSize L v = of_nat (length (toPacked L v))"
proof (induction L v rule: toPacked.induct)
  case (1 L t i s d dd arr obj)
  show ?case
  proof (cases t)
    case ARRAY
    have "sum_list (map (packedSize L) arr) = of_nat (length (concat (map (toPacked L) arr)))"
      using "1.IH"(1) [OF ARRAY] by (rule sum_children)
    then show ?thesis using ARRAY by simp
  next
    case OBJECT
    have "sum_list (map (\<lambda>(k, c). of_nat (lengthWidth L) + of_nat (length k) + packedSize L c) obj)
       = of_nat (length (concat (map (\<lambda>(k, c). fixed_width (lengthWidth L) (length k) @ k @ toPacked L c) obj)))"
      using "1.IH"(2) [OF OBJECT] by (intro sum_entries) auto
    then show ?thesis using OBJECT by simp
  qed (simp_all add: length_fixed_width)
qed

lemma unat_uint32_of_nat: "unat (of_nat n :: uint32) = n mod 4294967296"
  by (simp add: unat_of_nat)

section \<open>Claims about the run codec\<close>

subsection \<open>Round trip of the 2-byte form\<close>

text \<open>
  C1, as the code has it. The specification claims \<open>decodeVector (encodeVector S) = S\<close> for
  every finite sequence of non-negative integers. The decoder accumulates in an
  \<^verbatim>\<open>unsigned int\<close> and counts the bytes in an \<^verbatim>\<open>int\<close>. So: for every sequence \<open>S\<close> of
  non-negative integers whose encoding is at most \<open>2 ^ 31 - 2\<close> bytes long (the index then
  does not overflow), decoding the 2-byte encoding of \<open>S\<close> where plain \<^verbatim>\<open>char\<close> is unsigned
  runs to the end and yields the values of \<open>S\<close> as 32-bit words, that is each value reduced
  modulo \<open>2 ^ 32\<close>, whatever the result container held before; when every value is below
  \<open>2 ^ 32\<close> (zero and \<open>0xFFFF\<close> included) that is exactly \<open>S\<close>. An encoding longer than
  \<open>2 ^ 31 - 2\<close> bytes overflows the index (lemmas \<open>decodeVector_overflow_iff\<close> and
  \<open>decodeVector_overflow_example\<close>).
\<close>

theorem decodeVector_encodeVector_roundtrip:
  assumes "\<forall>v\<in>set S. 0 \<le> v" and "length (encodeVector S) \<le> 2147483646"
  shows "decodeVector False (encodeVector S) prior = Inr (map word_of_int S)
         \<and> map_sum id (map uint) (decodeVector False (encodeVector S) prior)
             = Inr (map (\<lambda>v. v mod 2 ^ 32) S)
         \<and> ((\<forall>v\<in>set S. v < 2 ^ 32) \<longrightarrow>
              map_sum id (map uint) (decodeVector False (encodeVector S) prior) = Inr S)"
proof (intro conjI impI)
  show d: "decodeVector False (encodeVector S) prior = Inr (map word_of_int S)"
    using assms by (rule roundtrip2_mod)
  show "map_sum id (map uint) (decodeVector False (encodeVector S) prior)
          = Inr (map (\<lambda>v. v mod 2 ^ 32) S)"
    by (simp only: d map_sum.simps map_uint_word_of_int_mod)
  assume "\<forall>v\<in>set S. v < 2 ^ 32"
  with assms(1) have "\<forall>v\<in>set S. 0 \<le> v \<and> v < 4294967296" by simp
  then have "map uint (map word_of_int S :: uint32 list) = S"
    by (rule map_uint_word_of_int)
  then show "map_sum id (map uint) (decodeVector False (encodeVector S) prior) = Inr S"
    by (simp only: d map_sum.simps)
qed

theorem decodeVector_encodeVector_roundtrip_witness:
  "decodeVector False (encodeVector [0, 65535, 65536, 131070]) [7] = Inr [0, 65535, 65536, 131070]
   \<and> map_sum id (map uint) (decodeVector False (encodeVector [0, 65535, 65536, 131070]) [7])
       = Inr [0, 65535, 65536, 131070]"
proof -
  have h1: "\<forall>v\<in>set [0, 65535, 65536, 131070 :: int]. 0 \<le> v" by simp
  have h2: "length (encodeVector [0, 65535, 65536, 131070]) \<le> 2147483646"
    by (simp add: encodeVector_closed length_chunk2)
  have h3: "\<forall>v\<in>set [0, 65535, 65536, 131070 :: int]. v < 2 ^ 32" by simp
  note t = decodeVector_encodeVector_roundtrip [OF h1 h2, of "[7]"]
  have a: "decodeVector False (encodeVector [0, 65535, 65536, 131070]) [7] = Inr [0, 65535, 65536, 131070]"
    using t [THEN conjunct1] by simp
  have b: "map_sum id (map uint) (decodeVector False (encodeVector [0, 65535, 65536, 131070]) [7])
       = Inr [0, 65535, 65536, 131070]"
    using t [THEN conjunct2, THEN conjunct2] h3 by blast
  show ?thesis using a b by (intro conjI)
qed

text \<open>
  The claim as stated fails: \<open>2 ^ 32\<close> is encoded as 65537 maximum fields and a field
  holding 1, and decodes to 0; and where plain \<^verbatim>\<open>char\<close> is signed, 65535 (encoded as
  \<^verbatim>\<open>FF FF 00 00\<close>) decodes to the two values 4294967039 and 0.
\<close>

theorem decodeVector_encodeVector_roundtrip_counterexample:
  "decodeVector False (encodeVector [4294967296]) [] = Inr [0]
   \<and> decodeVector True (encodeVector [65535]) [] = Inr [4294967039, 0]"
proof
  have "length (encodeVector [4294967296]) \<le> 2147483646"
    by (simp add: encodeVector_closed length_chunk2)
  then have "decodeVector False (encodeVector [4294967296]) [] = Inr (map word_of_int [4294967296])"
    by (intro roundtrip2_mod) simp_all
  then show "decodeVector False (encodeVector [4294967296]) [] = Inr [0]"
    by simp
  show "decodeVector True (encodeVector [65535]) [] = Inr [4294967039, 0]"
    by (simp add: encodeVector_closed chunk2_nonneg decodeVector_list curLen2_signed_eq)
qed

subsection \<open>The decoding algorithm\<close>

text \<open>
  C2: \<^verbatim>\<open>decodeVector\<close> reads 2-byte big-endian fields of value \<open>256 * b0 + b1\<close>, sums the
  fields equal to \<open>0xFFFF\<close> and emits the sum at a field below \<open>0xFFFF\<close>. Where plain
  \<^verbatim>\<open>char\<close> is unsigned the code does exactly that on an input of even length (lemma
  \<open>decodeVector_unsigned_refines_spec\<close>, with the sum kept in 32 bits). Where it is signed,
  \<^verbatim>\<open>input[i]\<close> is sign-extended before the shift: the field \<^verbatim>\<open>00 80\<close>, which holds 128,
  is read as 4294967168, and no field ever compares equal to \<open>0xFFFF\<close> (lemma
  \<open>curLen2_signed_never_max\<close>). The code at that input, beside the specified algorithm:
\<close>

theorem decodeVector_sign_extends_field:
  "decodeVector True [0x00, 0x80] [] = Inr [0xFFFFFF80]
   \<and> spec_decode 0xFFFF 0 (fields2 [0x00, 0x80]) = [128]"
  by (simp add: decodeVector_list curLen2_signed_eq be16_value_def)

subsection \<open>The encoding algorithm\<close>

text \<open>
  C3: for each input integer \<open>v\<close>, while \<open>v \<ge> 0xFFFF\<close> \<^verbatim>\<open>encodeVector\<close> emits one 2-byte
  field holding \<open>0xFFFF\<close> and subtracts \<open>0xFFFF\<close> from \<open>v\<close>, and finally emits one 2-byte
  big-endian field holding the remainder: on non-negative input the code's output is the
  output of \<open>spec_encode2\<close>. Encoding the single value 0 gives exactly two zero bytes.
\<close>

theorem encodeVector_implements_spec:
  assumes "\<forall>v\<in>set S. 0 \<le> v"
  shows "encodeVector S = spec_encode2 (map nat S) \<and> encodeVector [0] = [0, 0]"
proof
  show "encodeVector S = spec_encode2 (map nat S)" using assms by (rule encodeVector_spec)
  show "encodeVector [0] = [0, 0]" by (simp add: encodeVector_closed chunk2_nonneg)
qed

theorem encodeVector_implements_spec_witness:
  "encodeVector [0, 65535, 65536, 131070]
     = [0, 0, 0xFF, 0xFF, 0, 0, 0xFF, 0xFF, 0, 1, 0xFF, 0xFF, 0xFF, 0xFF, 0, 0]"
  using encodeVector_implements_spec [of "[0, 65535, 65536, 131070]"]
  by (simp add: spec_encode2_def spec_run.simps be16_def)

text \<open>
  C4: a value is never represented as a single field equal to the field maximum. The bytes
  \<^verbatim>\<open>encodeVector\<close> emits for a non-negative \<open>v\<close> are \<open>v div 0xFFFF\<close> continuation fields
  \<^verbatim>\<open>FF FF\<close> followed by one terminating field; for \<open>v \<ge> 0xFFFF\<close> (so for
  \<open>v = 0xFFFF\<close>) there is at least one continuation field; and the terminating field
  holds \<open>v mod 0xFFFF\<close>, which is strictly less than \<open>0xFFFF\<close>.
\<close>

theorem encodeVector_max_uses_continuation:
  assumes "\<forall>v\<in>set S. 0 \<le> v"
  shows "encodeVector S =
           concat (map (\<lambda>v. concat (replicate (nat (v div 0xFFFF)) [0xFF, 0xFF])
                          @ [word_of_int (v mod 0xFFFF div 256), word_of_int (v mod 0xFFFF mod 256)]) S)
         \<and> (\<forall>v\<in>set S. (0xFFFF \<le> v \<longrightarrow> 1 \<le> nat (v div 0xFFFF))
               \<and> be16_value (word_of_int (v mod 0xFFFF div 256)) (word_of_int (v mod 0xFFFF mod 256))
                   = nat (v mod 0xFFFF)
               \<and> nat (v mod 0xFFFF) < 0xFFFF)"
proof
  show "encodeVector S =
           concat (map (\<lambda>v. concat (replicate (nat (v div 0xFFFF)) [0xFF, 0xFF])
                          @ [word_of_int (v mod 0xFFFF div 256), word_of_int (v mod 0xFFFF mod 256)]) S)"
    using assms by (simp add: encodeVector_closed chunk2_nonneg cong: map_cong)
  show "\<forall>v\<in>set S. (0xFFFF \<le> v \<longrightarrow> 1 \<le> nat (v div 0xFFFF))
               \<and> be16_value (word_of_int (v mod 0xFFFF div 256)) (word_of_int (v mod 0xFFFF mod 256))
                   = nat (v mod 0xFFFF)
               \<and> nat (v mod 0xFFFF) < 0xFFFF"
  proof
    fix v assume "v \<in> set S"
    have r: "0 \<le> v mod 65535" "v mod 65535 < 65535" by auto
    have k: "0xFFFF \<le> v \<longrightarrow> 1 \<le> nat (v div 0xFFFF)"
    proof
      assume "0xFFFF \<le> v"
      then have "1 \<le> v div 65535" using div_add_self2 [of 65535 "v - 65535"] by simp
      then show "1 \<le> nat (v div 0xFFFF)" by simp
    qed
    have f: "be16_value (word_of_int (v mod 0xFFFF div 256)) (word_of_int (v mod 0xFFFF mod 256))
                   = nat (v mod 0xFFFF)"
      using r by (intro be16_value_of_int) simp_all
    show "(0xFFFF \<le> v \<longrightarrow> 1 \<le> nat (v div 0xFFFF))
               \<and> be16_value (word_of_int (v mod 0xFFFF div 256)) (word_of_int (v mod 0xFFFF mod 256))
                   = nat (v mod 0xFFFF)
               \<and> nat (v mod 0xFFFF) < 0xFFFF"
      using k f r by simp
  qed
qed

theorem encodeVector_max_uses_continuation_witness:
  "encodeVector [65535] = [0xFF, 0xFF, 0, 0]"
  using encodeVector_max_uses_continuation [of "[65535]"] by simp

subsection \<open>The 4-byte form\<close>

text \<open>
  C5, as the code has it. \<^verbatim>\<open>encodeVector4\<close> is the same run scheme with field maximum
  \<open>0xFFFFFFFF\<close> and 4-byte big-endian fields (its output is that of \<open>spec_encode4\<close>). The
  specification claims the round trip for every sequence of non-negative integers; the
  decoder accumulates in an \<^verbatim>\<open>unsigned int\<close> and counts the bytes in an \<^verbatim>\<open>int\<close>. So: for
  every sequence \<open>S\<close> of non-negative integers whose encoding is at most \<open>2 ^ 31 - 2\<close> bytes
  long, decoding the encoding of \<open>S\<close> where plain \<^verbatim>\<open>char\<close> is unsigned runs to the end and
  yields the values of \<open>S\<close> as 32-bit words, each value reduced modulo \<open>2 ^ 32\<close>; when every
  value is below \<open>2 ^ 32\<close> (zero and \<open>0xFFFFFFFF\<close> included) that is exactly \<open>S\<close>. A longer
  encoding overflows the index (lemma \<open>decodeVector4_overflow_iff\<close>). Where plain
  \<^verbatim>\<open>char\<close> is unsigned the decoder is the specified algorithm on 4-byte fields, with the
  sum kept in 32 bits (lemma \<open>decodeVector4_unsigned_refines_spec\<close>).
\<close>

theorem decodeVector4_encodeVector4_roundtrip:
  assumes "\<forall>v\<in>set S. 0 \<le> v" and "length (encodeVector4 S) \<le> 2147483646"
  shows "encodeVector4 S = spec_encode4 (map nat S)
         \<and> decodeVector4 False (encodeVector4 S) prior = Inr (map word_of_int S)
         \<and> map_sum id (map uint) (decodeVector4 False (encodeVector4 S) prior)
             = Inr (map (\<lambda>v. v mod 2 ^ 32) S)
         \<and> ((\<forall>v\<in>set S. v < 2 ^ 32) \<longrightarrow>
              map_sum id (map uint) (decodeVector4 False (encodeVector4 S) prior) = Inr S)"
proof (intro conjI impI)
  show "encodeVector4 S = spec_encode4 (map nat S)" using assms(1) by (rule encodeVector4_spec)
  show d: "decodeVector4 False (encodeVector4 S) prior = Inr (map word_of_int S)"
    using assms by (rule roundtrip4_mod)
  show "map_sum id (map uint) (decodeVector4 False (encodeVector4 S) prior)
          = Inr (map (\<lambda>v. v mod 2 ^ 32) S)"
    by (simp only: d map_sum.simps map_uint_word_of_int_mod)
  assume "\<forall>v\<in>set S. v < 2 ^ 32"
  with assms(1) have "\<forall>v\<in>set S. 0 \<le> v \<and> v < 4294967296" by simp
  then have "map uint (map word_of_int S :: uint32 list) = S"
    by (rule map_uint_word_of_int)
  then show "map_sum id (map uint) (decodeVector4 False (encodeVector4 S) prior) = Inr S"
    by (simp only: d map_sum.simps)
qed

theorem decodeVector4_encodeVector4_roundtrip_witness:
  "encodeVector4 [0, 4294967295, 5] = [0, 0, 0, 0, 0xFF, 0xFF, 0xFF, 0xFF, 0, 0, 0, 0, 0, 0, 0, 5]
   \<and> map_sum id (map uint) (decodeVector4 False (encodeVector4 [0, 4294967295, 5]) [9])
       = Inr [0, 4294967295, 5]"
proof -
  have h1: "\<forall>v\<in>set [0, 4294967295, 5 :: int]. 0 \<le> v" by simp
  have h2: "length (encodeVector4 [0, 4294967295, 5]) \<le> 2147483646"
    by (simp add: encodeVector4_closed length_chunk4)
  have h3: "\<forall>v\<in>set [0, 4294967295, 5 :: int]. v < 2 ^ 32" by simp
  note t = decodeVector4_encodeVector4_roundtrip [OF h1 h2, of "[9]"]
  have c: "spec_encode4 (map nat [0, 4294967295, 5])
             = [0, 0, 0, 0, 0xFF, 0xFF, 0xFF, 0xFF, 0, 0, 0, 0, 0, 0, 0, 5]"
    by (simp add: spec_encode4_def spec_run.simps be32_def)
  have e: "encodeVector4 [0, 4294967295, 5] = [0, 0, 0, 0, 0xFF, 0xFF, 0xFF, 0xFF, 0, 0, 0, 0, 0, 0, 0, 5]"
    using t [THEN conjunct1] c by (simp only:)
  have d: "map_sum id (map uint) (decodeVector4 False (encodeVector4 [0, 4294967295, 5]) [9])
       = Inr [0, 4294967295, 5]"
    using t [THEN conjunct2, THEN conjunct2, THEN conjunct2] h3 by blast
  show ?thesis using e d by (intro conjI)
qed

text \<open>
  The claim as stated fails: \<open>2 ^ 32\<close> is encoded as \<^verbatim>\<open>FF FF FF FF 00 00 00 01\<close> and
  decodes to 0; and where plain \<^verbatim>\<open>char\<close> is signed, 128 (encoded as \<^verbatim>\<open>00 00 00 80\<close>)
  decodes to 4294967168.
\<close>

theorem decodeVector4_encodeVector4_roundtrip_counterexample:
  "decodeVector4 False (encodeVector4 [4294967296]) [] = Inr [0]
   \<and> decodeVector4 True (encodeVector4 [128]) [] = Inr [4294967168]"
  by (simp add: encodeVector4_closed chunk4_nonneg decodeVector4_list curLen4_signed_eq curLen4_def
      char_to_int_def)

subsection \<open>The result container, bounds and trailing runs\<close>

text \<open>
  C8: both decoders first clear the output container, so the decoded result depends only
  on the input bytes: two calls on the same input (and the same platform) with arbitrary
  prior contents of the container end with identical contents.
\<close>

theorem decodeVector_clears_result:
  "decodeVector char_signed input result1 = decodeVector char_signed input result2
   \<and> decodeVector4 char_signed input result1 = decodeVector4 char_signed input result2"
  by (simp add: decodeVector_def decodeVector4_def clear_def)



text \<open>
  C10: a trailing run of maximum fields with no terminating field is silently discarded.
  Where plain \<^verbatim>\<open>char\<close> is unsigned this is what both decoders do (lemma
  \<open>trailing_run_discarded_unsigned\<close>). Where it is signed, the sign-extended field
  \<^verbatim>\<open>FF FF\<close> is not recognised as the maximum and is emitted as a value of its own:
  after the encoding of \<open>[1]\<close>, one trailing maximum field adds a second decoded value.
\<close>

theorem decoders_emit_trailing_run_signed:
  "decodeVector True (encodeVector [1] @ [0xFF, 0xFF]) [] = Inr [1, 0xFFFFFEFF]
   \<and> decodeVector4 True (encodeVector4 [1] @ [0xFF, 0xFF, 0xFF, 0xFF]) [] = Inr [1, 0xFEFEFEFF]"
  by (simp add: encodeVector_closed chunk2_nonneg decodeVector_list curLen2_signed_eq
      encodeVector4_closed chunk4_nonneg decodeVector4_list curLen4_signed_eq)

section \<open>Claims about the packed form\<close>

text \<open>
  C6, as the declared result type has it: \<open>packedSize V\<close> is the byte length of
  \<open>toPacked V\<close> reduced modulo \<open>2 ^ 32\<close>, for every value and every choice of marker
  bytes, widths and end marker; so it equals that length whenever the packed form is
  shorter than \<open>2 ^ 32\<close> bytes.
\<close>

theorem packedSize_consistent:
  "unat (packedSize L V) = length (toPacked L V) mod 2 ^ 32
   \<and> (length (toPacked L V) < 2 ^ 32 \<longrightarrow> unat (packedSize L V) = length (toPacked L V))"
  by (simp add: packedSize_length unat_uint32_of_nat)

theorem packedSize_consistent_witness:
  "length (toPacked example_layout (Value OBJECT 0 [] 0 0 [] [([0x78], Value INTEGER 1 [] 0 0 [] [])])) = 16
   \<and> unat (packedSize example_layout (Value OBJECT 0 [] 0 0 [] [([0x78], Value INTEGER 1 [] 0 0 [] [])])) = 16"
proof -
  let ?V = "Value OBJECT 0 [] 0 0 [] [([0x78], Value INTEGER 1 [] 0 0 [] [])]"
  have l: "length (toPacked example_layout ?V) = 16"
    by (simp add: example_layout_def length_fixed_width)
  then have h: "length (toPacked example_layout ?V) < 2 ^ 32" by simp
  have "unat (packedSize example_layout ?V) = length (toPacked example_layout ?V)"
    using packedSize_consistent [of example_layout ?V] h by blast
  with l show ?thesis by (simp only:)
qed

text \<open>
  The claim for every value fails at a string of \<open>2 ^ 32\<close> bytes: its packed form is longer
  than any \<^verbatim>\<open>unsigned int\<close>.
\<close>

theorem packedSize_consistent_counterexample:
  "length (toPacked example_layout (Value STRING 0 (replicate 4294967296 0) 0 0 [] [])) = 4294967301
   \<and> unat (packedSize example_layout (Value STRING 0 (replicate 4294967296 0) 0 0 [] [])) = 5"
  by (simp add: example_layout_def length_fixed_width)

end
